theory Spec2Isabelle
  imports Complex_Main "HOL-Library.Multiset"
begin

section \<open>Errors and generators\<close>

text \<open>
  The Python functions modelled here are generators. A generator run to exhaustion is
  modelled by the list of the items it yielded together with the way the iteration
  ended: \<open>None\<close> for a normal end, \<open>Some e\<close> when exception \<open>e\<close> was raised after those
  items had been yielded.
\<close>

datatype error = ValueError | IndexError | NotImplementedError | AttributeError | ConfigurationError

type_synonym 'a gen = "'a list \<times> error option"

section \<open>The batcher: \<open>iter_batch\<close> (common/utils.py and embedding.py)\<close>

text \<open>
  \<^verbatim>\<open>
  def iter_batch(iterable, size):
      source_iter = iter(iterable)
      while source_iter:
          b = list(islice(source_iter, size))
          if len(b) == 0:
              break
          yield b
  \<close>
  The iterator object is always truthy, so the loop ends only through \<open>break\<close>.
  \<open>islice(it, size)\<close> takes the next \<open>size\<close> items (fewer when the source runs out)
  and raises \<open>ValueError\<close> for a negative \<open>size\<close> (and for one beyond the platform's
  \<open>sys.maxsize\<close>, which no list reaches and which is not modelled). The source iterator
  is the list of the items still to be read.
\<close>

function iter_batch_loop :: "'a list \<Rightarrow> nat \<Rightarrow> 'a list list" where
  "iter_batch_loop source_iter sz =
     (if length (take sz source_iter) = 0 then []
      else take sz source_iter # iter_batch_loop (drop sz source_iter) sz)"
  by pat_completeness auto
termination
  by (relation "measure (\<lambda>(source_iter, sz). length source_iter)") auto

declare iter_batch_loop.simps [simp del]

definition iter_batch :: "'a list \<Rightarrow> int \<Rightarrow> 'a list gen" where
  "iter_batch iterable sz =
     (if sz < 0 then ([], Some ValueError)
      else (iter_batch_loop iterable (nat sz), None))"

section \<open>Arrays\<close>

text \<open>
  A numpy array is its shape together with its data, here nested lists in row-major
  order. The shape is kept beside the data because an axis of length 0 leaves no trace
  in nested lists. Floating-point numbers are idealised as real numbers: rounding,
  overflow, infinities and NaN are outside this model, and \<open>astype(np.float32)\<close> is the
  identity.
\<close>

record 'a ndarray2 =
  shape2 :: "nat \<times> nat"
  data2 :: "'a list list"

record 'a ndarray3 =
  shape3 :: "nat \<times> nat \<times> nat"
  data3 :: "'a list list list"

definition at2 :: "'a ndarray2 \<Rightarrow> nat \<Rightarrow> nat \<Rightarrow> 'a" where
  "at2 a i j = data2 a ! i ! j"

definition at3 :: "'a ndarray3 \<Rightarrow> nat \<Rightarrow> nat \<Rightarrow> nat \<Rightarrow> 'a" where
  "at3 a i j k = data3 a ! i ! j ! k"

definition wf2 :: "'a ndarray2 \<Rightarrow> bool" where
  "wf2 a = (case shape2 a of (n, d) \<Rightarrow>
      length (data2 a) = n \<and> list_all (\<lambda>row. length row = d) (data2 a))"

definition wf3 :: "'a ndarray3 \<Rightarrow> bool" where
  "wf3 a = (case shape3 a of (b, s, h) \<Rightarrow>
      length (data3 a) = b
      \<and> list_all (\<lambda>item. length item = s \<and> list_all (\<lambda>v. length v = h) item) (data3 a))"

definition mk2 :: "nat \<times> nat \<Rightarrow> (nat \<Rightarrow> nat \<Rightarrow> 'a) \<Rightarrow> 'a ndarray2" where
  "mk2 sh f = (case sh of (n, d) \<Rightarrow>
      \<lparr>shape2 = (n, d), data2 = map (\<lambda>i. map (\<lambda>j. f i j) [0..<d]) [0..<n]\<rparr>)"


text \<open>
  numpy broadcasting of two axes: equal lengths pair up, an axis of length 1 is
  repeated along the other one, anything else raises \<open>ValueError\<close>.
\<close>

definition bdim :: "nat \<Rightarrow> nat \<Rightarrow> nat option" where
  "bdim n m = (if n = m then Some n else if n = 1 then Some m else if m = 1 then Some n else None)"

definition bidx :: "nat \<Rightarrow> nat \<Rightarrow> nat" where
  "bidx n i = (if n = 1 then 0 else i)"

definition broadcast2 ::
  "('a \<Rightarrow> 'b \<Rightarrow> 'c) \<Rightarrow> 'a ndarray2 \<Rightarrow> 'b ndarray2 \<Rightarrow> error + 'c ndarray2" where
  "broadcast2 f a b =
     (case (shape2 a, shape2 b) of ((n, d), (n', d')) \<Rightarrow>
        (case (bdim n n', bdim d d') of
           (Some N, Some D) \<Rightarrow>
             Inr (mk2 (N, D) (\<lambda>i j. f (at2 a (bidx n i) (bidx d j)) (at2 b (bidx n' i) (bidx d' j))))
         | _ \<Rightarrow> Inl ValueError))"





definition np_maximum :: "real ndarray2 \<Rightarrow> real \<Rightarrow> real ndarray2" where
  \<comment> \<open>\<open>np.maximum(a, c)\<close> with a scalar \<open>c\<close>; \<open>np.clip(a, a_min=c, a_max=None)\<close> is the same\<close>
  "np_maximum a c = \<lparr>shape2 = shape2 a, data2 = map (map (\<lambda>x. max x c)) (data2 a)\<rparr>"

definition linalg_norm_axis1 :: "real ndarray2 \<Rightarrow> real ndarray2" where
  \<comment> \<open>\<open>np.linalg.norm(a, ord=2, axis=1, keepdims=True)\<close>\<close>
  "linalg_norm_axis1 a = (case shape2 a of (n, d) \<Rightarrow>
      mk2 (n, 1) (\<lambda>i _. sqrt (sum_list (map (\<lambda>j. \<bar>at2 a i j\<bar>\<^sup>2) [0..<d]))))"

definition index_axis1 :: "'a ndarray3 \<Rightarrow> nat \<Rightarrow> error + 'a ndarray2" where
  \<comment> \<open>\<open>a[:, j]\<close> for \<open>j \<ge> 0\<close>\<close>
  "index_axis1 a j = (case shape3 a of (b, s, h) \<Rightarrow>
      if j < s then Inr (mk2 (b, h) (\<lambda>i k. at3 a i j k)) else Inl IndexError)"

section \<open>Numeric post-processing\<close>

text \<open>
  \<^verbatim>\<open>
  def normalize(input_array, p=2, dim=1, eps=1e-12):
      norm = np.linalg.norm(input_array, ord=p, axis=dim, keepdims=True)
      norm = np.maximum(norm, eps)  # Avoid division by zero
      normalized_array = input_array / norm
      return normalized_array
  \<close>
  Every call in the repository leaves \<open>p\<close> and \<open>dim\<close> at their defaults, which are built
  into the model; \<open>eps\<close> stays a parameter.
\<close>

definition eps_default :: real where
  "eps_default = 1 / 10 ^ 12"

definition normalize_l2 :: "real ndarray2 \<Rightarrow> real \<Rightarrow> error + real ndarray2" where
  "normalize_l2 input_array eps =
     (let norm = linalg_norm_axis1 input_array;
          norm = np_maximum norm eps
      in broadcast2 (/) input_array norm)"


text \<open>
  \<^verbatim>\<open>
  def adjust_matryoshka_embedding(embeddings, embedding_size):
      if embedding_size < embeddings.shape[-1]:
          return embeddings[..., :embedding_size]
      elif embedding_size > embeddings.shape[-1]:
          padding = embedding_size - embeddings.shape[-1]
          pad_width = [(0, 0)] * (len(embeddings.shape) - 1) + [(0, padding)]
          return np.pad(embeddings, pad_width, mode="constant")
      return embeddings
  \<close>
  The function only acts on the last axis; it is modelled on the two-dimensional arrays
  (one vector per item) that pooling produces. A Python slice \<open>[:stop]\<close> with a negative
  \<open>stop\<close> counts from the end.
\<close>

definition slice_last :: "'a ndarray2 \<Rightarrow> int \<Rightarrow> 'a ndarray2" where
  \<comment> \<open>\<open>a[..., :stop]\<close>\<close>
  "slice_last a stop = (case shape2 a of (n, d) \<Rightarrow>
      (let k = (if 0 \<le> stop then min (nat stop) d else nat (int d + stop))
       in \<lparr>shape2 = (n, k), data2 = map (take k) (data2 a)\<rparr>))"

definition np_pad_last :: "real ndarray2 \<Rightarrow> nat \<Rightarrow> real ndarray2" where
  \<comment> \<open>\<open>np.pad(a, [(0, 0), (0, padding)], mode="constant")\<close>\<close>
  "np_pad_last a padding = (case shape2 a of (n, d) \<Rightarrow>
      \<lparr>shape2 = (n, d + padding), data2 = map (\<lambda>row. row @ replicate padding 0) (data2 a)\<rparr>)"

definition adjust_matryoshka_embedding :: "real ndarray2 \<Rightarrow> int \<Rightarrow> real ndarray2" where
  "adjust_matryoshka_embedding embeddings embedding_size =
     (if embedding_size < int (snd (shape2 embeddings)) then slice_last embeddings embedding_size
      else if embedding_size > int (snd (shape2 embeddings)) then
        (let padding = embedding_size - int (snd (shape2 embeddings))
         in np_pad_last embeddings (nat padding))
      else embeddings)"

section \<open>The worker pool\<close>

text \<open>
  \<^verbatim>\<open>
  def process(self, items):
      for idx, batch in items:
          embeddings, attn_mask = self.model.onnx_embed(batch)
          yield idx, (embeddings, attn_mask)
  \<close>
  \<open>onnx_embed\<close> is the external inference engine: a function from a batch to its raw
  output. The worker's model and the driver's model are loaded from the same files, so
  both are the same function here.
\<close>

definition process :: "('b \<Rightarrow> 'r) \<Rightarrow> (nat \<times> 'b) list \<Rightarrow> (nat \<times> 'r) list" where
  "process onnx_embed items = map (\<lambda>(idx, batch). (idx, onnx_embed batch)) items"

text \<open>
  Modelled from the spec: \<open>ParallelWorkerPool.ordered_map\<close> (fastembed/parallel_processor.py
  is not among the sources). Section 4.5 and the design notes of the specification
  describe it: the pool numbers the batches in increasing order as it pulls them,
  hands every numbered task to one of its \<open>P\<close> workers, receives the workers' numbered
  results in whatever order they finish, keeps them in a buffer from position to result,
  and yields the result at the next expected position as soon as it is there. The
  concurrency is a schedule: \<open>assign\<close> says which worker gets which task, \<open>arrival\<close> names
  the worker whose next result reaches the pool; results not covered by \<open>arrival\<close> are
  collected worker by worker at the end. An invalid number of workers is a
  \<open>ConfigurationError\<close> (section 7); the driver resolves 0 before it builds the pool.
  The inference engine is a total function here, so a failing or hanging worker
  (\<open>PoolExecutionError\<close>) does not arise.
\<close>

record schedule =
  assign :: "nat \<Rightarrow> nat"
  arrival :: "nat list"

definition dispatch :: "nat \<Rightarrow> (nat \<Rightarrow> nat) \<Rightarrow> (nat \<times> 'b) list \<Rightarrow> (nat \<times> 'b) list list" where
  "dispatch P asg tasks = map (\<lambda>w. filter (\<lambda>(idx, _). asg idx mod P = w) tasks) [0..<P]"

fun interleave :: "nat list \<Rightarrow> 'a list list \<Rightarrow> 'a list" where
  "interleave [] outs = concat outs"
| "interleave (w # ws) outs =
     (if w < length outs then
        (case outs ! w of
           [] \<Rightarrow> interleave ws outs
         | x # rest \<Rightarrow> x # interleave ws (outs[w := rest]))
      else interleave ws outs)"

function flush :: "nat \<Rightarrow> (nat \<times> 'r) list \<Rightarrow> 'r list \<times> nat \<times> (nat \<times> 'r) list" where
  "flush nxt buf =
     (case map_of buf nxt of
        None \<Rightarrow> ([], nxt, buf)
      | Some r \<Rightarrow>
          (case flush (Suc nxt) (filter (\<lambda>(k, _). k \<noteq> nxt) buf) of
             (out, nxt', buf') \<Rightarrow> (r # out, nxt', buf')))"
  by pat_completeness auto
termination
proof (relation "measure (\<lambda>(nxt, buf). length buf)")
  show "wf (measure (\<lambda>(nxt, buf). length buf))" by simp
next
  fix nxt :: nat and buf :: "(nat \<times> 'r) list" and r
  assume "map_of buf nxt = Some r"
  then have "(nxt, r) \<in> set buf" by (rule map_of_SomeD)
  then have "length (filter (\<lambda>(k, _). k \<noteq> nxt) buf) < length buf"
    by (induction buf) (auto simp: less_Suc_eq_le)
  then show "((Suc nxt, filter (\<lambda>(k, _). k \<noteq> nxt) buf), (nxt, buf)) \<in> measure (\<lambda>(nxt, buf). length buf)"
    by simp
qed

declare flush.simps [simp del]

fun reorder :: "nat \<Rightarrow> (nat \<times> 'r) list \<Rightarrow> (nat \<times> 'r) list \<Rightarrow> 'r list" where
  "reorder nxt buf [] = []"
| "reorder nxt buf ((idx, r) # rest) =
     (case flush nxt ((idx, r) # buf) of
        (out, nxt', buf') \<Rightarrow> out @ reorder nxt' buf' rest)"

definition ordered_map :: "schedule \<Rightarrow> int \<Rightarrow> ('b \<Rightarrow> 'r) \<Rightarrow> 'b gen \<Rightarrow> 'r gen" where
  "ordered_map sched P onnx_embed stream =
     (if P \<le> 0 then ([], Some ConfigurationError)
      else (case stream of (batches, fin) \<Rightarrow>
        (let tasks = enumerate 0 batches;
             outs = map (process onnx_embed) (dispatch (nat P) (assign sched) tasks);
             results = interleave (arrival sched) outs
         in (reorder 0 [] results, fin))))"

section \<open>The pipeline driver: \<open>FlagEmbedding.embed\<close>\<close>

text \<open>
  \<^verbatim>\<open>
  def embed(self, documents, batch_size=256, parallel=None):
      is_small = False
      if isinstance(documents, str):
          documents = [documents]
          is_small = True
      if isinstance(documents, list):
          if len(documents) < batch_size:
              is_small = True
      if parallel == 0:
          parallel = os.cpu_count()
      if parallel is None or is_small:
          for batch in iter_batch(documents, batch_size):
              embeddings, _ = self.model.onnx_embed(batch)
              yield from normalize(embeddings[:, 0]).astype(np.float32)
      else:
          ...
          pool = ParallelWorkerPool(parallel, EmbeddingWorker, start_method=start_method)
          for batch in pool.ordered_map(iter_batch(documents, batch_size), **params):
              embeddings, _ = batch
              yield from normalize(embeddings[:, 0]).astype(np.float32)
  \<close>
  The input is a single string, a list, or any other iterable of strings (a generator,
  a tuple); \<open>os.cpu_count()\<close> returns the number of processing units or \<open>None\<close>.
\<close>

datatype documents = DocStr string | DocList "string list" | DocIter "string list"

datatype route = SingleProcess | ParallelPool int

type_synonym raw_output = "real ndarray3 \<times> int ndarray2"

fun items_of :: "documents \<Rightarrow> string list" where
  "items_of (DocStr s) = map (\<lambda>c. [c]) s"
| "items_of (DocList ds) = ds"
| "items_of (DocIter ds) = ds"

definition embed_prepare ::
  "int option \<Rightarrow> documents \<Rightarrow> int \<Rightarrow> int option \<Rightarrow> documents \<times> bool \<times> int option" where
  "embed_prepare os_cpu_count documents batch_size parallel =
     (let is_small = False;
          (documents, is_small) =
            (case documents of DocStr s \<Rightarrow> (DocList [s], True) | _ \<Rightarrow> (documents, is_small));
          is_small =
            (case documents of
               DocList ds \<Rightarrow> (if int (length ds) < batch_size then True else is_small)
             | _ \<Rightarrow> is_small);
          parallel = (if parallel = Some 0 then os_cpu_count else parallel)
      in (documents, is_small, parallel))"

definition route_of :: "bool \<Rightarrow> int option \<Rightarrow> route" where
  \<comment> \<open>\<open>if parallel is None or is_small: ... else: ...\<close>\<close>
  "route_of is_small parallel =
     (case parallel of
        None \<Rightarrow> SingleProcess
      | Some P \<Rightarrow> if is_small then SingleProcess else ParallelPool P)"

definition embed_route :: "int option \<Rightarrow> documents \<Rightarrow> int \<Rightarrow> int option \<Rightarrow> route" where
  "embed_route os_cpu_count documents batch_size parallel =
     (case embed_prepare os_cpu_count documents batch_size parallel of
        (documents, is_small, parallel) \<Rightarrow> route_of is_small parallel)"

fun yield_each :: "('a \<Rightarrow> error + 'b list) \<Rightarrow> 'a list \<Rightarrow> error option \<Rightarrow> 'b gen" where
  "yield_each body [] fin = ([], fin)"
| "yield_each body (x # xs) fin =
     (case body x of
        Inl e \<Rightarrow> ([], Some e)
      | Inr ys \<Rightarrow> (case yield_each body xs fin of (out, r) \<Rightarrow> (ys @ out, r)))"

definition first_token_normalize :: "real ndarray3 \<Rightarrow> error + real list list" where
  \<comment> \<open>the items yielded by \<open>yield from normalize(embeddings[:, 0]).astype(np.float32)\<close>\<close>
  "first_token_normalize embeddings =
     (case index_axis1 embeddings 0 of
        Inl e \<Rightarrow> Inl e
      | Inr first \<Rightarrow>
          (case normalize_l2 first eps_default of
             Inl e \<Rightarrow> Inl e
           | Inr normalized \<Rightarrow> Inr (data2 normalized)))"

definition embed_flag ::
  "int option \<Rightarrow> schedule \<Rightarrow> (string list \<Rightarrow> raw_output) \<Rightarrow> documents \<Rightarrow> int \<Rightarrow> int option
     \<Rightarrow> real list gen" where
  "embed_flag os_cpu_count sched onnx_embed documents batch_size parallel =
     (case embed_prepare os_cpu_count documents batch_size parallel of
        (documents, is_small, parallel) \<Rightarrow>
          (case route_of is_small parallel of
             SingleProcess \<Rightarrow>
               (case iter_batch (items_of documents) batch_size of
                  (batches, fin) \<Rightarrow>
                    yield_each (\<lambda>batch. case onnx_embed batch of
                                  (embeddings, _) \<Rightarrow> first_token_normalize embeddings)
                      batches fin)
           | ParallelPool P \<Rightarrow>
               (case ordered_map sched P onnx_embed (iter_batch (items_of documents) batch_size) of
                  (raws, fin) \<Rightarrow>
                    yield_each (\<lambda>batch. case batch of
                                  (embeddings, _) \<Rightarrow> first_token_normalize embeddings)
                      raws fin)))"

section \<open>\<open>LateInteractionImageEmbeddingBase.query_embed\<close>\<close>

text \<open>
  \<^verbatim>\<open>
  def query_embed(self, query, **kwargs):
      if isinstance(query, str):
          yield from self.embed([query], **kwargs)
      if isinstance(query, Iterable):
          yield from self.embed(query, **kwargs)
  \<close>
  \<open>self.embed\<close> is abstract in this class (it raises \<open>NotImplementedError\<close>) and is
  supplied by a subclass, so it is a parameter. A string is an instance of \<open>Iterable\<close>,
  as every list and every generator is.
\<close>

fun isinstance_Iterable :: "documents \<Rightarrow> bool" where
  "isinstance_Iterable (DocStr s) = True"
| "isinstance_Iterable (DocList ds) = True"
| "isinstance_Iterable (DocIter ds) = True"

definition yield_from :: "'a gen \<Rightarrow> 'a gen \<Rightarrow> 'a gen" where
  \<comment> \<open>the first generator run to its end, then the rest of the body\<close>
  "yield_from g rest =
     (case g of
        (xs, Some e) \<Rightarrow> (xs, Some e)
      | (xs, None) \<Rightarrow> (case rest of (ys, fin) \<Rightarrow> (xs @ ys, fin)))"

definition query_embed :: "(documents \<Rightarrow> 'e gen) \<Rightarrow> documents \<Rightarrow> 'e gen" where
  "query_embed self_embed query =
     yield_from
       (case query of DocStr q \<Rightarrow> self_embed (DocList [q]) | _ \<Rightarrow> ([], None))
       (if isinstance_Iterable query then self_embed query else ([], None))"

definition abstract_embed :: "documents \<Rightarrow> 'e gen" where
  \<comment> \<open>\<open>LateInteractionImageEmbeddingBase.embed\<close>: \<open>raise NotImplementedError()\<close>\<close>
  "abstract_embed images = ([], Some NotImplementedError)"


section \<open>\<open>SparseTextEmbedding.embed\<close>\<close>

text \<open>
  \<^verbatim>\<open>
  def embed(self, documents, batch_size=256, parallel=None, **kwargs):
      if self.lazy_load and self.model is None and parallel is None:
          self._load_onnx_model()
      if parallel:
          yield from self.model_class._embed_documents_parallel(..., parallel=parallel, ...)
      else:
          yield from self.model.embed(documents, batch_size, parallel, **kwargs)
  \<close>
  The wrapper only chooses whom to call; the callees are not among the sources. Its
  state is whether loading is lazy and whether \<open>self.model\<close> has been loaded. The
  condition \<open>if parallel:\<close> is false for \<open>None\<close> and for 0, and a call of \<open>self.model.embed\<close>
  while \<open>self.model\<close> is \<open>None\<close> raises \<open>AttributeError\<close>.
\<close>

record sparse_state =
  lazy_load :: bool
  model_loaded :: bool

datatype sparse_route =
  EmbedDocumentsParallel int | ModelEmbed "int option" | Raises error

definition sparse_embed_route :: "sparse_state \<Rightarrow> int option \<Rightarrow> sparse_route" where
  "sparse_embed_route self parallel =
     (let loaded = (if lazy_load self \<and> \<not> model_loaded self \<and> parallel = None then True
                    else model_loaded self)
      in if parallel \<noteq> None \<and> parallel \<noteq> Some 0 then EmbedDocumentsParallel (the parallel)
         else if loaded then ModelEmbed parallel
         else Raises AttributeError)"

section \<open>Reference definitions\<close>

text \<open>
  The Euclidean norm of a vector, and the vector divided by its norm floored at \<open>eps\<close>,
  as the specification words L2 normalization. They are what the array code above is
  compared with.
\<close>

definition l2_norm :: "real list \<Rightarrow> real" where
  "l2_norm v = sqrt (sum_list (map (\<lambda>x. x\<^sup>2) v))"

definition l2_normalized :: "real \<Rightarrow> real list \<Rightarrow> real list" where
  "l2_normalized eps v = map (\<lambda>x. x / max (l2_norm v) eps) v"


text \<open>
  The items an \<open>embed\<close> call iterates over: the single string itself, or the items of
  the list or iterable.
\<close>

fun resolved_items :: "documents \<Rightarrow> string list" where
  "resolved_items (DocStr s) = [s]"
| "resolved_items (DocList ds) = ds"
| "resolved_items (DocIter ds) = ds"

section \<open>Example data\<close>

text \<open>
  A stand-in inference engine that returns one token with the hidden vector \<open>(3, 4)\<close> for
  every document, a schedule in which results arrive out of order, and small arrays.
\<close>

definition demo_onnx_embed :: "string list \<Rightarrow> raw_output" where
  "demo_onnx_embed batch =
     (\<lparr>shape3 = (length batch, 1, 2), data3 = map (\<lambda>doc. [[3, 4]]) batch\<rparr>,
      \<lparr>shape2 = (length batch, 1), data2 = map (\<lambda>doc. [1]) batch\<rparr>)"

definition demo_schedule :: schedule where
  "demo_schedule = \<lparr>assign = (\<lambda>idx. idx), arrival = [1, 0, 1]\<rparr>"




definition demo_vectors :: "real ndarray2" where
  "demo_vectors = \<lparr>shape2 = (2, 2), data2 = [[3, 4], [0, 0]]\<rparr>"


section \<open>Properties of the batcher\<close>

lemma iter_batch_loop_unfold:
  "iter_batch_loop s n = (if n = 0 \<or> s = [] then [] else take n s # iter_batch_loop (drop n s) n)"
  by (subst iter_batch_loop.simps) (cases s; simp add: min_def)

lemma iter_batch_loop_Nil: "iter_batch_loop [] n = []"
  by (simp add: iter_batch_loop_unfold)

lemma iter_batch_loop_Cons:
  "0 < n \<Longrightarrow> s \<noteq> [] \<Longrightarrow> iter_batch_loop s n = take n s # iter_batch_loop (drop n s) n"
  by (subst iter_batch_loop_unfold) simp

lemma iter_batch_loop_concat: "0 < n \<Longrightarrow> concat (iter_batch_loop xs n) = xs"
proof (induction xs n rule: iter_batch_loop.induct)
  case (1 s n)
  show ?case
  proof (cases "s = []")
    case True
    then show ?thesis by (simp add: iter_batch_loop_Nil)
  next
    case False
    with 1 have "concat (iter_batch_loop (drop n s) n) = drop n s" by simp
    with False 1(2) show ?thesis by (simp add: iter_batch_loop_Cons)
  qed
qed









section \<open>Properties of the worker pool\<close>

lemma flush_None: "map_of buf nxt = None \<Longrightarrow> flush nxt buf = ([], nxt, buf)"
  by (subst flush.simps) simp

lemma flush_Some:
  "map_of buf nxt = Some r \<Longrightarrow>
   flush nxt buf = (case flush (Suc nxt) (filter (\<lambda>(k, _). k \<noteq> nxt) buf) of
                      (out, nxt', buf') \<Rightarrow> (r # out, nxt', buf'))"
  by (subst flush.simps) simp

lemma flush_spec:
  assumes "distinct (map fst buf)"
    and "\<forall>(k, v) \<in> set buf. nxt \<le> k \<and> k < length R \<and> v = R ! k"
    and "nxt \<le> length R"
  shows "\<exists>n'. flush nxt buf = (map ((!) R) [nxt..<n'], n', filter (\<lambda>(k, _). n' \<le> k) buf)
            \<and> nxt \<le> n' \<and> n' \<le> length R \<and> n' \<notin> fst ` set buf
            \<and> (\<forall>k. nxt \<le> k \<and> k < n' \<longrightarrow> k \<in> fst ` set buf)"
  using assms
proof (induction nxt buf rule: flush.induct)
  case (1 nxt buf)
  show ?case
  proof (cases "map_of buf nxt")
    case None
    then have "nxt \<notin> fst ` set buf" by (simp add: map_of_eq_None_iff)
    moreover have "filter (\<lambda>(k, _). nxt \<le> k) buf = buf"
      using 1(3) by (auto intro!: filter_True)
    ultimately show ?thesis using None 1(4) by (auto simp: flush_None intro!: exI[of _ nxt])
  next
    case (Some r)
    then have mem: "(nxt, r) \<in> set buf" by (rule map_of_SomeD)
    then have r: "r = R ! nxt" and lt: "nxt < length R" using 1(3) by auto
    let ?buf = "filter (\<lambda>(k, _). k \<noteq> nxt) buf"
    have d: "distinct (map fst ?buf)" using 1(2) by (simp add: distinct_map_filter)
    have b: "\<forall>(k, v) \<in> set ?buf. Suc nxt \<le> k \<and> k < length R \<and> v = R ! k"
      using 1(3) by fastforce
    from 1(1)[OF Some d b] lt obtain n' where
      f: "flush (Suc nxt) ?buf = (map ((!) R) [Suc nxt..<n'], n', filter (\<lambda>(k, _). n' \<le> k) ?buf)"
      and le: "Suc nxt \<le> n'" "n' \<le> length R" and notin: "n' \<notin> fst ` set ?buf"
      and all: "\<forall>k. Suc nxt \<le> k \<and> k < n' \<longrightarrow> k \<in> fst ` set ?buf"
      by auto
    have out: "r # map ((!) R) [Suc nxt..<n'] = map ((!) R) [nxt..<n']"
      using le r by (simp add: upt_conv_Cons)
    have fl: "filter (\<lambda>(k, _). n' \<le> k) ?buf = filter (\<lambda>(k, _). n' \<le> k) buf"
      using le by (auto intro!: filter_cong)
    have n1: "n' \<notin> fst ` set buf" using notin le by force
    have n2: "\<forall>k. nxt \<le> k \<and> k < n' \<longrightarrow> k \<in> fst ` set buf"
    proof (intro allI impI)
      fix k assume k: "nxt \<le> k \<and> k < n'"
      show "k \<in> fst ` set buf"
      proof (cases "k = nxt")
        case True
        then show ?thesis using mem by force
      next
        case False
        then have "k \<in> fst ` set ?buf" using all k by simp
        then show ?thesis by auto
      qed
    qed
    have "flush nxt buf = (map ((!) R) [nxt..<n'], n', filter (\<lambda>(k, _). n' \<le> k) buf)"
      using Some f out fl by (simp add: flush_Some)
    then show ?thesis using le n1 n2 by (intro exI[of _ n']) auto
  qed
qed

lemma distinct_fst_filter_append:
  "distinct (map fst (xs @ ys)) \<Longrightarrow> distinct (map fst (filter Q xs @ ys))"
  by (induction xs) auto

lemma reorder_spec:
  assumes "distinct (map fst (buf @ arr))"
    and "set (buf @ arr) = {(k, R ! k) | k. nxt \<le> k \<and> k < length R}"
    and "nxt \<notin> fst ` set buf"
    and "nxt \<le> length R"
  shows "reorder nxt buf arr = drop nxt R"
  using assms
proof (induction arr arbitrary: nxt buf)
  case Nil
  have "nxt = length R"
  proof (rule ccontr)
    assume "nxt \<noteq> length R"
    then have "nxt < length R" using Nil(4) by simp
    then have "(nxt, R ! nxt) \<in> set buf" using Nil(2) by auto
    then show False using Nil(3) by force
  qed
  then show ?case by simp
next
  case (Cons a arr)
  obtain idx r where a: "a = (idx, r)" by (cases a)
  let ?buf = "(idx, r) # buf"
  have d: "distinct (map fst ?buf)" using Cons(2) a by auto
  have s: "set ?buf \<subseteq> {(k, R ! k) | k. nxt \<le> k \<and> k < length R}" using Cons(3) a by auto
  then have b: "\<forall>(k, v) \<in> set ?buf. nxt \<le> k \<and> k < length R \<and> v = R ! k" by auto
  from flush_spec[OF d b Cons(5)] obtain n' where
    f: "flush nxt ?buf = (map ((!) R) [nxt..<n'], n', filter (\<lambda>(k, _). n' \<le> k) ?buf)"
    and le: "nxt \<le> n'" "n' \<le> length R" and notin: "n' \<notin> fst ` set ?buf"
    and all: "\<forall>k. nxt \<le> k \<and> k < n' \<longrightarrow> k \<in> fst ` set ?buf"
    by auto
  let ?buf' = "filter (\<lambda>(k, _). n' \<le> k) ?buf"
  have d': "distinct (map fst (?buf' @ arr))"
  proof -
    have "distinct (map fst (?buf @ arr))" using Cons(2) a by simp
    then show ?thesis by (rule distinct_fst_filter_append)
  qed
  have keys_arr: "\<forall>(k, v) \<in> set arr. n' \<le> k"
  proof (clarify)
    fix k v assume kv: "(k, v) \<in> set arr"
    show "n' \<le> k"
    proof (rule ccontr)
      assume "\<not> n' \<le> k"
      moreover have "nxt \<le> k" using kv Cons(3) by auto
      ultimately have "k \<in> fst ` set ?buf" using all by simp
      moreover have "k \<in> fst ` set arr" using kv by force
      moreover have "fst ` set ?buf \<inter> fst ` set arr = {}" using Cons(2) a by auto
      ultimately show False by blast
    qed
  qed
  have s': "set (?buf' @ arr) = {(k, R ! k) | k. n' \<le> k \<and> k < length R}"
  proof -
    have all_set: "set (?buf @ arr) = {(k, R ! k) | k. nxt \<le> k \<and> k < length R}"
      using Cons(3) a by simp
    have "set (?buf' @ arr) = {kv \<in> set (?buf @ arr). n' \<le> fst kv}"
      using keys_arr by (auto simp del: filter.simps)
    also have "\<dots> = {(k, R ! k) | k. n' \<le> k \<and> k < length R}"
      unfolding all_set using le by auto
    finally show ?thesis .
  qed
  have n': "n' \<notin> fst ` set ?buf'" using notin by (auto simp del: filter.simps)
  have "reorder n' ?buf' arr = drop n' R" by (rule Cons.IH[OF d' s' n' le(2)])
  then have "reorder nxt buf (a # arr) = map ((!) R) [nxt..<n'] @ drop n' R"
    using f a by simp
  also have "\<dots> = drop nxt R"
  proof -
    have "map ((!) R) [nxt..<n'] = take (n' - nxt) (drop nxt R)"
      using le by (auto simp: list_eq_iff_nth_eq)
    moreover have "drop n' R = drop (n' - nxt) (drop nxt R)" using le by simp
    ultimately show ?thesis by (simp only: append_take_drop_id)
  qed
  finally show ?case .
qed

lemma interleave_mset: "mset (interleave ws outs) = mset (concat outs)"
proof (induction ws arbitrary: outs)
  case Nil
  then show ?case by simp
next
  case (Cons w ws)
  show ?case
  proof (cases "w < length outs")
    case False
    then show ?thesis using Cons by simp
  next
    case True
    show ?thesis
    proof (cases "outs ! w")
      case Nil
      then show ?thesis using True Cons by simp
    next
      case (Cons x rest)
      have o: "outs = take w outs @ (x # rest) # drop (Suc w) outs"
        using True Cons by (metis id_take_nth_drop)
      have u: "outs[w := rest] = take w outs @ rest # drop (Suc w) outs"
        using True by (simp add: upd_conv_take_nth_drop)
      have "mset (concat outs) = add_mset x (mset (concat (outs[w := rest])))"
        by (subst o, subst u) simp
      then show ?thesis using True Cons Cons.IH[of "outs[w := rest]"] by simp
    qed
  qed
qed

lemma dispatch_mset_aux:
  "mset (concat (map (\<lambda>w. filter (\<lambda>t. g t = w) ts) [0..<P])) = mset (filter (\<lambda>t. g t < P) ts)"
proof (induction P)
  case 0
  then show ?case by simp
next
  case (Suc P)
  have "filter_mset (\<lambda>t. g t < Suc P) (mset ts)
        = filter_mset (\<lambda>t. g t < P) (mset ts) + filter_mset (\<lambda>t. g t = P) (mset ts)"
    by (rule multiset_eqI) auto
  then show ?case using Suc by simp
qed

lemma dispatch_mset: "0 < P \<Longrightarrow> mset (concat (dispatch P asg tasks)) = mset tasks"
proof -
  assume P: "0 < P"
  have "dispatch P asg tasks = map (\<lambda>w. filter (\<lambda>t. asg (fst t) mod P = w) tasks) [0..<P]"
    by (simp add: dispatch_def split_def)
  then have "mset (concat (dispatch P asg tasks)) = mset (filter (\<lambda>t. asg (fst t) mod P < P) tasks)"
    by (simp only: dispatch_mset_aux)
  then show ?thesis using P by simp
qed

lemma ordered_map_correct:
  assumes "0 < P"
  shows "ordered_map sched P f (batches, fin) = (map f batches, fin)"
proof -
  let ?h = "\<lambda>(idx, batch). (idx, f batch)"
  let ?tasks = "enumerate 0 batches"
  let ?outs = "map (process f) (dispatch (nat P) (assign sched) ?tasks)"
  let ?res = "interleave (arrival sched) ?outs"
  let ?R = "map f batches"
  have "process f = map ?h" by (rule ext) (simp add: process_def)
  then have "concat ?outs = map ?h (concat (dispatch (nat P) (assign sched) ?tasks))"
    by (simp add: map_concat)
  then have m: "mset ?res = mset (map ?h ?tasks)"
    using assms by (simp add: interleave_mset dispatch_mset)
  have keys: "map fst (map ?h ?tasks) = [0..<length batches]"
    by (simp add: case_prod_beta comp_def)
  have "mset (map fst ?res) = mset (map fst (map ?h ?tasks))"
    using m by (metis mset_map)
  then have d: "distinct (map fst ?res)"
    using keys by (metis distinct_upt mset_eq_imp_distinct_iff)
  have "set ?res = set (map ?h ?tasks)" using m by (rule mset_eq_setD)
  also have "\<dots> = {(k, ?R ! k) | k. 0 \<le> k \<and> k < length ?R}"
  proof -
    have "k < length batches \<Longrightarrow> (k, batches ! k) \<in> set (enumerate 0 batches)" for k
      by (simp add: in_set_enumerate_eq)
    then have "k < length batches \<Longrightarrow> (k, f (batches ! k)) \<in> ?h ` set (enumerate 0 batches)" for k
      by (metis (mono_tags, lifting) case_prod_conv image_eqI)
    moreover have "x \<in> set (enumerate 0 batches) \<Longrightarrow>
        \<exists>k. ?h x = (k, f (batches ! k)) \<and> k < length batches" for x
      by (cases x) (auto simp: in_set_enumerate_eq)
    ultimately show ?thesis by auto
  qed
  finally have s: "set ([] @ ?res) = {(k, ?R ! k) | k. 0 \<le> k \<and> k < length ?R}" by simp
  have "reorder 0 [] ?res = drop 0 ?R"
    by (rule reorder_spec[OF _ s]) (use d in auto)
  then show ?thesis using assms by (simp add: ordered_map_def Let_def)
qed

section \<open>Properties of the array operations\<close>

lemma bidx_id: "i < n \<Longrightarrow> bidx n i = i"
  by (auto simp: bidx_def)

lemma bidx_one: "bidx (Suc 0) i = 0"
  by (simp add: bidx_def)

lemma bdim_same: "bdim n n = Some n"
  by (simp add: bdim_def)

lemma bdim_one: "bdim d (Suc 0) = Some d"
  by (auto simp: bdim_def)

lemma shape2_mk2: "shape2 (mk2 (n, d) f) = (n, d)"
  by (simp add: mk2_def)

lemma data2_mk2: "data2 (mk2 (n, d) f) = map (\<lambda>i. map (\<lambda>j. f i j) [0..<d]) [0..<n]"
  by (simp add: mk2_def)


lemma wf2_mk2: "wf2 (mk2 (n, d) f)"
  by (simp add: mk2_def wf2_def list_all_iff)

lemma mk2_cong: "(\<And>i j. i < n \<Longrightarrow> j < d \<Longrightarrow> f i j = g i j) \<Longrightarrow> mk2 (n, d) f = mk2 (n, d) g"
  by (simp add: mk2_def)



lemma wf2_row: "wf2 a \<Longrightarrow> shape2 a = (n, d) \<Longrightarrow> i < n \<Longrightarrow> length (data2 a ! i) = d"
  by (auto simp: wf2_def list_all_length)

lemma wf2_length: "wf2 a \<Longrightarrow> shape2 a = (n, d) \<Longrightarrow> length (data2 a) = n"
  by (auto simp: wf2_def)

lemma map_index_nth: "map (\<lambda>j. g (xs ! j)) [0..<length xs] = map g xs"
  by (rule nth_equalityI) simp_all

lemma wf2_data:
  assumes "wf2 a" "shape2 a = (n, d)"
  shows "data2 a = map (\<lambda>i. map (\<lambda>j. at2 a i j) [0..<d]) [0..<n]"
proof (rule nth_equalityI)
  show "length (data2 a) = length (map (\<lambda>i. map (\<lambda>j. at2 a i j) [0..<d]) [0..<n])"
    using assms by (simp add: wf2_length)
next
  fix i assume "i < length (data2 a)"
  then have i: "i < n" using assms by (simp add: wf2_length)
  then have "length (data2 a ! i) = d" using assms by (simp add: wf2_row)
  then have "map (\<lambda>j. data2 a ! i ! j) [0..<d] = data2 a ! i"
    using map_index_nth[of "\<lambda>x. x" "data2 a ! i"] by simp
  then show "data2 a ! i = map (\<lambda>i. map (\<lambda>j. at2 a i j) [0..<d]) [0..<n] ! i"
    using i by (simp add: at2_def)
qed

lemma row_sum_index:
  assumes "wf2 a" "shape2 a = (n, d)" "i < n"
  shows "sum_list (map (\<lambda>j. g (at2 a i j)) [0..<d]) = sum_list (map g (data2 a ! i))"
proof -
  have "length (data2 a ! i) = d" using assms by (simp add: wf2_row)
  then have "map g (data2 a ! i) = map (\<lambda>j. g (data2 a ! i ! j)) [0..<d]"
    using map_index_nth[of g "data2 a ! i"] by simp
  then show ?thesis by (simp add: at2_def)
qed

lemma normalize_rows:
  assumes "wf2 a"
  shows "normalize_l2 a eps = Inr \<lparr>shape2 = shape2 a, data2 = map (l2_normalized eps) (data2 a)\<rparr>"
proof -
  obtain n d where sh: "shape2 a = (n, d)" by (cases "shape2 a")
  let ?norm = "np_maximum (linalg_norm_axis1 a) eps"
  have shn: "shape2 ?norm = (n, 1)" by (simp add: np_maximum_def linalg_norm_axis1_def sh shape2_mk2)
  have atn: "at2 ?norm i 0 = max (l2_norm (data2 a ! i)) eps" if "i < n" for i
    using that row_sum_index[OF assms sh that, of "\<lambda>x. \<bar>x\<bar>\<^sup>2"]
    by (simp add: np_maximum_def linalg_norm_axis1_def sh data2_mk2 at2_def l2_norm_def)
  have "normalize_l2 a eps = Inr (mk2 (n, d) (\<lambda>i j. at2 a (bidx n i) (bidx d j) / at2 ?norm (bidx n i) (bidx 1 j)))"
    using sh shn by (simp add: normalize_l2_def broadcast2_def bdim_same bdim_one Let_def)
  also have "mk2 (n, d) (\<lambda>i j. at2 a (bidx n i) (bidx d j) / at2 ?norm (bidx n i) (bidx 1 j))
           = mk2 (n, d) (\<lambda>i j. at2 a i j / max (l2_norm (data2 a ! i)) eps)"
    by (rule mk2_cong) (simp add: bidx_id bidx_one atn)
  also have "\<dots> = \<lparr>shape2 = shape2 a, data2 = map (l2_normalized eps) (data2 a)\<rparr>"
  proof -
    have "map (\<lambda>i. map (\<lambda>j. at2 a i j / max (l2_norm (data2 a ! i)) eps) [0..<d]) [0..<n]
        = map (l2_normalized eps) (data2 a)"
    proof (rule nth_equalityI)
      show "length (map (\<lambda>i. map (\<lambda>j. at2 a i j / max (l2_norm (data2 a ! i)) eps) [0..<d]) [0..<n])
          = length (map (l2_normalized eps) (data2 a))"
        using assms sh by (simp add: wf2_length)
    next
      fix i assume "i < length (map (\<lambda>i. map (\<lambda>j. at2 a i j / max (l2_norm (data2 a ! i)) eps) [0..<d]) [0..<n])"
      then have i: "i < n" by simp
      have len: "length (data2 a ! i) = d" using assms sh i by (simp add: wf2_row)
      have "map (\<lambda>j. at2 a i j / max (l2_norm (data2 a ! i)) eps) [0..<d] = l2_normalized eps (data2 a ! i)"
        by (rule nth_equalityI) (simp_all add: len l2_normalized_def at2_def)
      then show "map (\<lambda>i. map (\<lambda>j. at2 a i j / max (l2_norm (data2 a ! i)) eps) [0..<d]) [0..<n] ! i
          = map (l2_normalized eps) (data2 a) ! i"
        using i assms sh by (simp add: wf2_length)
    qed
    then show ?thesis by (simp add: mk2_def sh)
  qed
  finally show ?thesis .
qed



lemma wf3_length: "wf3 a \<Longrightarrow> shape3 a = (b, s, h) \<Longrightarrow> length (data3 a) = b"
  by (auto simp: wf3_def)

lemma wf3_item: "wf3 a \<Longrightarrow> shape3 a = (b, s, h) \<Longrightarrow> i < b \<Longrightarrow> length (data3 a ! i) = s"
  by (auto simp: wf3_def list_all_length)

lemma wf3_vec:
  "wf3 a \<Longrightarrow> shape3 a = (b, s, h) \<Longrightarrow> i < b \<Longrightarrow> j < s \<Longrightarrow> length (data3 a ! i ! j) = h"
  by (auto simp: wf3_def list_all_length)





section \<open>Properties of L2 normalization\<close>

lemma sum_sq_nonneg: "0 \<le> (\<Sum>x\<leftarrow>v. x\<^sup>2)" for v :: "real list"
  by (induction v) simp_all

lemma l2_norm_nonneg: "0 \<le> l2_norm v"
  by (simp add: l2_norm_def sum_sq_nonneg)

lemma sum_sq_scale: "(\<Sum>x\<leftarrow>v. (x / c)\<^sup>2) = (\<Sum>x\<leftarrow>v. x\<^sup>2) / c\<^sup>2" for c :: real
  by (induction v) (simp_all add: power_divide add_divide_distrib)

lemma l2_norm_scale: "0 < c \<Longrightarrow> l2_norm (map (\<lambda>x. x / c) v) = l2_norm v / c"
  by (simp add: l2_norm_def comp_def sum_sq_scale real_sqrt_divide)


lemma l2_normalized_small:
  assumes "0 < eps" "l2_norm v < eps"
  shows "l2_normalized eps v = map (\<lambda>x. x / eps) v" "l2_norm (l2_normalized eps v) = l2_norm v / eps"
    "l2_norm (l2_normalized eps v) < 1"
proof -
  have m: "max (l2_norm v) eps = eps" using assms by simp
  show a: "l2_normalized eps v = map (\<lambda>x. x / eps) v" by (simp add: l2_normalized_def m)
  show b: "l2_norm (l2_normalized eps v) = l2_norm v / eps" using assms by (simp add: a l2_norm_scale)
  show "l2_norm (l2_normalized eps v) < 1" using assms by (simp add: b)
qed






section \<open>Properties of the pipeline driver\<close>

lemma embed_prepare_DocStr:
  "embed_prepare cpu (DocStr s) bs par = (DocList [s], True, if par = Some 0 then cpu else par)"
  by (simp add: embed_prepare_def)

lemma embed_prepare_DocList:
  "embed_prepare cpu (DocList ds) bs par =
     (DocList ds, int (length ds) < bs, if par = Some 0 then cpu else par)"
  by (simp add: embed_prepare_def)

lemma embed_prepare_DocIter:
  "embed_prepare cpu (DocIter ds) bs par = (DocIter ds, False, if par = Some 0 then cpu else par)"
  by (simp add: embed_prepare_def)

lemmas embed_prepare_simps = embed_prepare_DocStr embed_prepare_DocList embed_prepare_DocIter

lemma embed_prepare_items:
  "items_of (fst (embed_prepare cpu docs bs par)) = resolved_items docs"
  by (cases docs) (simp_all add: embed_prepare_simps)

lemma embed_prepare_parallel:
  "snd (snd (embed_prepare cpu docs bs par)) = (if par = Some 0 then cpu else par)"
  by (cases docs) (simp_all add: embed_prepare_simps)

lemma embed_prepare_None:
  "embed_prepare cpu docs bs None =
     (fst (embed_prepare cpu docs bs par), fst (snd (embed_prepare cpu docs bs par)), None)"
  by (cases docs) (simp_all add: embed_prepare_simps)

lemma yield_each_map:
  "yield_each body (map f xs) fin = yield_each (\<lambda>x. body (f x)) xs fin"
  by (induction xs) (simp_all split: sum.splits prod.splits)

lemma yield_each_Inr:
  "(\<And>x. x \<in> set xs \<Longrightarrow> body x = Inr (g x)) \<Longrightarrow> yield_each body xs fin = (concat (map g xs), fin)"
  by (induction xs) simp_all

lemma length_concat_map:
  "(\<And>x. x \<in> set xs \<Longrightarrow> length (g x) = length x) \<Longrightarrow>
   length (concat (map g xs)) = length (concat xs)"
  by (induction xs) simp_all

lemma embed_single:
  "embed_route cpu docs bs par = SingleProcess \<Longrightarrow>
   embed_flag cpu sched f docs bs par =
     yield_each (\<lambda>batch. case f batch of (embeddings, _) \<Rightarrow> first_token_normalize embeddings)
       (fst (iter_batch (resolved_items docs) bs)) (snd (iter_batch (resolved_items docs) bs))"
  using embed_prepare_items[of cpu docs bs par]
  by (simp add: embed_flag_def embed_route_def split: prod.splits)

lemma embed_pool:
  "embed_route cpu docs bs par = ParallelPool P \<Longrightarrow>
   embed_flag cpu sched f docs bs par =
     (case ordered_map sched P f (iter_batch (resolved_items docs) bs) of
        (raws, fin) \<Rightarrow>
          yield_each (\<lambda>batch. case batch of (embeddings, _) \<Rightarrow> first_token_normalize embeddings)
            raws fin)"
  using embed_prepare_items[of cpu docs bs par]
  by (simp add: embed_flag_def embed_route_def split: prod.splits)

lemma embed_pool_positive:
  assumes "0 < P" "embed_route cpu docs bs par = ParallelPool P"
  shows "embed_flag cpu sched f docs bs par =
     yield_each (\<lambda>batch. case f batch of (embeddings, _) \<Rightarrow> first_token_normalize embeddings)
       (fst (iter_batch (resolved_items docs) bs)) (snd (iter_batch (resolved_items docs) bs))"
proof -
  obtain batches fin where ib: "iter_batch (resolved_items docs) bs = (batches, fin)"
    by (cases "iter_batch (resolved_items docs) bs")
  show ?thesis
    using assms by (simp add: embed_pool ib ordered_map_correct yield_each_map)
qed

lemma embed_route_workers:
  assumes "case cpu of None \<Rightarrow> True | Some c \<Rightarrow> 0 < c"
    and "par = None \<or> par = Some 0 \<or> (\<exists>N>0. par = Some N)"
    and "embed_route cpu docs bs par = ParallelPool P"
  shows "0 < P"
  using assms
  by (cases docs)
     (auto simp: embed_route_def embed_prepare_simps route_of_def split: option.splits if_splits)

lemma embed_any_route:
  assumes "case cpu of None \<Rightarrow> True | Some c \<Rightarrow> 0 < c"
    and "par = None \<or> par = Some 0 \<or> (\<exists>N>0. par = Some N)"
  shows "embed_flag cpu sched f docs bs par =
     yield_each (\<lambda>batch. case f batch of (embeddings, _) \<Rightarrow> first_token_normalize embeddings)
       (fst (iter_batch (resolved_items docs) bs)) (snd (iter_batch (resolved_items docs) bs))"
proof (cases "embed_route cpu docs bs par")
  case SingleProcess
  then show ?thesis by (rule embed_single)
next
  case (ParallelPool P)
  then have "0 < P" using assms by (rule embed_route_workers[rotated 2])
  then show ?thesis using ParallelPool by (rule embed_pool_positive)
qed

lemma first_token_rows:
  assumes "wf3 E" "shape3 E = (b, s, h)" "0 < s"
  shows "first_token_normalize E = Inr (map (\<lambda>item. l2_normalized eps_default (item ! 0)) (data3 E))"
proof -
  let ?first = "mk2 (b, h) (\<lambda>i k. at3 E i 0 k)"
  have ix: "index_axis1 E 0 = Inr ?first" using assms by (simp add: index_axis1_def)
  have "data2 ?first = map (\<lambda>item. item ! 0) (data3 E)"
  proof (rule nth_equalityI)
    show "length (data2 ?first) = length (map (\<lambda>item. item ! 0) (data3 E))"
      using assms by (simp add: data2_mk2 wf3_length)
  next
    fix i assume "i < length (data2 ?first)"
    then have i: "i < b" by (simp add: data2_mk2)
    have "length (data3 E ! i ! 0) = h" using assms i by (simp add: wf3_vec)
    then have "map (\<lambda>k. data3 E ! i ! 0 ! k) [0..<h] = data3 E ! i ! 0"
      using map_index_nth[of "\<lambda>x. x" "data3 E ! i ! 0"] by simp
    then show "data2 ?first ! i = map (\<lambda>item. item ! 0) (data3 E) ! i"
      using i assms by (simp add: data2_mk2 at3_def wf3_length)
  qed
  then show ?thesis
    by (simp add: first_token_normalize_def ix normalize_rows wf2_mk2 comp_def)
qed

lemma demo_onnx_embed_wf:
  "wf3 (fst (demo_onnx_embed batch))
   \<and> (\<exists>s h. 0 < s \<and> shape3 (fst (demo_onnx_embed batch)) = (length batch, s, h))"
  by (simp add: demo_onnx_embed_def wf3_def list_all_iff)

section \<open>Order preservation under parallelism\<close>

text \<open>
  Claim C2. For every input, every batch size and every \<open>parallel\<close> that is \<open>None\<close>, 0 or
  positive, \<open>embed\<close> yields the same vectors in the same order, and ends the same way, as
  the single-process path (\<open>parallel = None\<close>) on the same input, whatever the schedule of
  the workers. The pool's \<open>ordered_map\<close> with any positive number of workers and any
  schedule yields exactly what applying the inference engine to the batches one after the
  other yields, and the worker's \<open>process\<close> emits one result per task, in the order of the
  tasks and under the task's position. The number of processing units reported by the
  system is \<open>None\<close> or positive.
\<close>

theorem embed_parallel_equals_single:
  assumes "case os_cpu_count of None \<Rightarrow> True | Some c \<Rightarrow> 0 < c"
    and "parallel = None \<or> parallel = Some 0 \<or> (\<exists>N>0. parallel = Some N)"
  shows "embed_flag os_cpu_count sched onnx_embed documents batch_size parallel
           = embed_flag os_cpu_count sched' onnx_embed documents batch_size None
       \<and> (\<forall>P>0. ordered_map sched P onnx_embed (batches, fin) = (map onnx_embed batches, fin))
       \<and> length (process onnx_embed tasks) = length tasks
       \<and> map fst (process onnx_embed tasks) = map fst tasks
       \<and> map snd (process onnx_embed tasks) = map (\<lambda>task. onnx_embed (snd task)) tasks"
proof -
  have "embed_flag os_cpu_count sched onnx_embed documents batch_size parallel
      = embed_flag os_cpu_count sched' onnx_embed documents batch_size None"
    using assms by (simp add: embed_any_route)
  moreover have "\<forall>P>0. ordered_map sched P onnx_embed (batches, fin) = (map onnx_embed batches, fin)"
    by (simp add: ordered_map_correct)
  moreover have "map fst (process onnx_embed tasks) = map fst tasks"
    by (simp add: process_def comp_def case_prod_beta)
  moreover have "map snd (process onnx_embed tasks) = map (\<lambda>task. onnx_embed (snd task)) tasks"
    by (simp add: process_def comp_def case_prod_beta)
  moreover have "length (process onnx_embed tasks) = length tasks"
    by (simp add: process_def)
  ultimately show ?thesis by simp
qed

theorem embed_parallel_equals_single_witness:
  "(case Some (4::int) of None \<Rightarrow> True | Some c \<Rightarrow> 0 < c)
   \<and> (Some (2::int) = None \<or> Some (2::int) = Some 0 \<or> (\<exists>N>0. Some (2::int) = Some N))
   \<and> embed_flag (Some 4) demo_schedule demo_onnx_embed (DocList [''a'', ''b'', ''c'']) 1 (Some 2)
       = embed_flag (Some 4) demo_schedule demo_onnx_embed (DocList [''a'', ''b'', ''c'']) 1 None
   \<and> ordered_map demo_schedule 2 demo_onnx_embed ([[''a''], [''b''], [''c'']], None)
       = ([demo_onnx_embed [''a''], demo_onnx_embed [''b''], demo_onnx_embed [''c'']], None)"
proof -
  have h1: "case Some (4::int) of None \<Rightarrow> True | Some c \<Rightarrow> 0 < c" by simp
  have h2: "Some (2::int) = None \<or> Some (2::int) = Some 0 \<or> (\<exists>N>0. Some (2::int) = Some N)" by simp
  show ?thesis
    using embed_parallel_equals_single [OF h1 h2, of demo_schedule demo_onnx_embed
        "DocList [''a'', ''b'', ''c'']" 1 demo_schedule "[[''a''], [''b''], [''c'']]" None "[]"]
    by simp
qed

section \<open>Choice of the execution path\<close>

text \<open>
  Claim C3 as stated fails: a single string is always a small input, also when
  \<open>batch_size\<close> is 1, so with \<open>parallel = 0\<close> and one item for a batch size of 1 the
  single-process path is taken and not a pool of all processing units.
\<close>

theorem embed_route_zero_counterexample:
  "\<not> ((Some 0 :: int option) = Some 0
       \<and> \<not> int (length (resolved_items (DocStr ''hello''))) < 1
       \<longrightarrow> embed_route (Some 4) (DocStr ''hello'') 1 (Some 0) = ParallelPool 4)"
  by (simp add: embed_route_def embed_prepare_simps route_of_def)

text \<open>
  Claim C3, amended. For an input that is a list of at least \<open>batch_size\<close> items or an
  iterable that is not a list (and not a single string): \<open>parallel = 0\<close> is resolved to
  \<open>os.cpu_count()\<close> and, when that is a number \<open>n\<close>, the pool path is used with \<open>n\<close>
  workers (the single-process path when it is \<open>None\<close>); \<open>parallel = N > 0\<close> uses the pool
  with \<open>N\<close> workers. \<open>parallel = None\<close> uses the single-process path for every input.
  Whenever the route is the pool with \<open>P\<close> workers, \<open>embed\<close> is the post-processing of
  \<open>ordered_map\<close> with \<open>P\<close> workers over the batches.
\<close>

theorem embed_route_parallel:
  assumes "documents = DocIter ds \<or> (documents = DocList ds \<and> batch_size \<le> int (length ds))"
  shows "(os_cpu_count = Some n \<longrightarrow>
            embed_route os_cpu_count documents batch_size (Some 0) = ParallelPool n)
       \<and> (os_cpu_count = None \<longrightarrow>
            embed_route os_cpu_count documents batch_size (Some 0) = SingleProcess)
       \<and> (0 < N \<longrightarrow> embed_route os_cpu_count documents batch_size (Some N) = ParallelPool N)
       \<and> embed_route os_cpu_count any_documents batch_size None = SingleProcess
       \<and> (\<forall>P parallel. embed_route os_cpu_count documents batch_size parallel = ParallelPool P \<longrightarrow>
            embed_flag os_cpu_count sched onnx_embed documents batch_size parallel =
              (case ordered_map sched P onnx_embed (iter_batch ds batch_size) of
                 (raws, fin) \<Rightarrow>
                   yield_each (\<lambda>batch. case batch of (embeddings, _) \<Rightarrow> first_token_normalize embeddings)
                     raws fin))"
proof -
  have "embed_route os_cpu_count any_documents batch_size None = SingleProcess"
    by (cases any_documents) (simp_all add: embed_route_def embed_prepare_simps route_of_def)
  moreover have "resolved_items documents = ds" using assms by auto
  moreover have "os_cpu_count = Some n \<longrightarrow>
      embed_route os_cpu_count documents batch_size (Some 0) = ParallelPool n"
    using assms by (auto simp: embed_route_def embed_prepare_simps route_of_def)
  moreover have "os_cpu_count = None \<longrightarrow>
      embed_route os_cpu_count documents batch_size (Some 0) = SingleProcess"
    using assms by (auto simp: embed_route_def embed_prepare_simps route_of_def)
  moreover have "0 < N \<longrightarrow> embed_route os_cpu_count documents batch_size (Some N) = ParallelPool N"
    using assms by (auto simp: embed_route_def embed_prepare_simps route_of_def)
  ultimately show ?thesis by (simp add: embed_pool)
qed

theorem embed_route_parallel_witness:
  "(DocList [''a'', ''b''] = DocIter [''a'', ''b'']
      \<or> (DocList [''a'', ''b''] = DocList [''a'', ''b''] \<and> (2::int) \<le> int (length [''a'', ''b''])))
   \<and> embed_route (Some 8) (DocList [''a'', ''b'']) 2 (Some 0) = ParallelPool 8
   \<and> embed_route (Some 8) (DocList [''a'', ''b'']) 2 (Some 3) = ParallelPool 3
   \<and> embed_route (Some 8) (DocStr ''a'') 2 None = SingleProcess"
proof -
  have h: "DocList [''a'', ''b''] = DocIter [''a'', ''b'']
      \<or> (DocList [''a'', ''b''] = DocList [''a'', ''b''] \<and> (2::int) \<le> int (length [''a'', ''b'']))"
    by simp
  show ?thesis
    using embed_route_parallel [OF h, of "Some 8" 8 3 "DocStr ''a''"] by simp
qed

text \<open>
  The wrapper \<open>SparseTextEmbedding.embed\<close> does not resolve \<open>parallel = 0\<close> itself: 0 is
  falsy, so the call goes to \<open>self.model.embed\<close> with \<open>parallel = 0\<close> unchanged, and
  with lazy loading it reaches that call before any model has been loaded.
\<close>

lemma sparse_embed_route_zero:
  "sparse_embed_route self (Some 0) =
     (if model_loaded self then ModelEmbed (Some 0) else Raises AttributeError)"
  by (simp add: sparse_embed_route_def)

lemma sparse_embed_route_lazy_zero:
  "sparse_embed_route \<lparr>lazy_load = True, model_loaded = False\<rparr> (Some 0) = Raises AttributeError"
  by (simp add: sparse_embed_route_def)

lemma sparse_embed_route_other:
  "lazy_load self \<or> model_loaded self \<Longrightarrow> sparse_embed_route self None = ModelEmbed None"
  "N \<noteq> 0 \<Longrightarrow> sparse_embed_route self (Some N) = EmbedDocumentsParallel N"
  by (auto simp: sparse_embed_route_def)

text \<open>
  Claim C4 as stated fails: the number of items is only looked at for a list (and a
  single string), so an iterable that is not a list, here a generator of one item for a
  batch size of 256, keeps the requested pool.
\<close>

theorem embed_small_input_counterexample:
  "\<not> (int (length (resolved_items (DocIter [''a'']))) < 256
       \<longrightarrow> embed_route (Some 4) (DocIter [''a'']) 256 (Some 2) = SingleProcess)"
  by (simp add: embed_route_def embed_prepare_simps route_of_def)

text \<open>
  Claim C4, amended. When the input is a single string, or a list with fewer than
  \<open>batch_size\<close> items, the single-process path is used whatever \<open>parallel\<close> is, and the call
  yields what it yields with \<open>parallel = None\<close>. For an iterable that is not a list the
  requested positive degree is kept whatever the number of items.
\<close>

theorem embed_small_input_single:
  assumes "documents = DocStr s \<or> (documents = DocList ds \<and> int (length ds) < batch_size)"
  shows "embed_route os_cpu_count documents batch_size parallel = SingleProcess
       \<and> embed_flag os_cpu_count sched onnx_embed documents batch_size parallel
           = embed_flag os_cpu_count sched onnx_embed documents batch_size None
       \<and> (0 < N \<longrightarrow> embed_route os_cpu_count (DocIter ds) batch_size (Some N) = ParallelPool N)"
proof -
  have r: "embed_route os_cpu_count documents batch_size par = SingleProcess" for par
    using assms
    by (auto simp: embed_route_def embed_prepare_simps route_of_def split: option.splits)
  have "embed_flag os_cpu_count sched onnx_embed documents batch_size parallel
      = embed_flag os_cpu_count sched onnx_embed documents batch_size None"
    by (simp add: embed_single r)
  moreover have "0 < N \<longrightarrow> embed_route os_cpu_count (DocIter ds) batch_size (Some N) = ParallelPool N"
    by (simp add: embed_route_def embed_prepare_simps route_of_def)
  ultimately show ?thesis using r by simp
qed

theorem embed_small_input_single_witness:
  "(DocList [''a''] = DocStr ''a'' \<or> (DocList [''a''] = DocList [''a''] \<and> int (length [''a'']) < 256))
   \<and> embed_route (Some 4) (DocList [''a'']) 256 (Some 2) = SingleProcess
   \<and> embed_route (Some 4) (DocList [''a'']) 256 (Some 0) = SingleProcess"
proof -
  have h: "DocList [''a''] = DocStr ''a'' \<or> (DocList [''a''] = DocList [''a''] \<and> int (length [''a'']) < 256)"
    by simp
  show ?thesis
    using embed_small_input_single [OF h, of "Some 4" "Some 2"]
      embed_small_input_single [OF h, of "Some 4" "Some 0"] by simp
qed

section \<open>Mean pooling\<close>










section \<open>L2 normalization\<close>


lemma l2_norm_3_4: "l2_norm [3, 4] = 5"
proof -
  have "l2_norm [3, 4] = sqrt (5\<^sup>2)" by (simp add: l2_norm_def)
  then show ?thesis by simp
qed




section \<open>Matryoshka dimension adjustment\<close>

text \<open>
  Claim C8. For an array of \<open>n\<close> vectors of dimension \<open>d\<close> and a requested size
  \<open>embedding_size \<ge> 0\<close>, the result has \<open>n\<close> vectors of dimension \<open>embedding_size\<close>: the
  first \<open>embedding_size\<close> components of every vector when the size is smaller than \<open>d\<close>,
  every vector followed by zeros when it is larger, and the array itself when it is
  equal. In every case component \<open>j\<close> of the result is component \<open>j\<close> of the input for
  \<open>j < d\<close> and 0 beyond.
\<close>

theorem adjust_matryoshka_embedding_correct:
  assumes "wf2 embeddings" "shape2 embeddings = (n, d)" "0 \<le> embedding_size"
  shows "wf2 (adjust_matryoshka_embedding embeddings embedding_size)
       \<and> shape2 (adjust_matryoshka_embedding embeddings embedding_size) = (n, nat embedding_size)
       \<and> (embedding_size < int d \<longrightarrow>
            data2 (adjust_matryoshka_embedding embeddings embedding_size)
              = map (take (nat embedding_size)) (data2 embeddings))
       \<and> (int d < embedding_size \<longrightarrow>
            data2 (adjust_matryoshka_embedding embeddings embedding_size)
              = map (\<lambda>v. v @ replicate (nat embedding_size - d) 0) (data2 embeddings))
       \<and> (embedding_size = int d \<longrightarrow>
            adjust_matryoshka_embedding embeddings embedding_size = embeddings)
       \<and> (\<forall>i<n. \<forall>j<nat embedding_size.
            at2 (adjust_matryoshka_embedding embeddings embedding_size) i j
              = (if j < d then at2 embeddings i j else 0))"
proof -
  have len: "length (data2 embeddings) = n" using assms by (simp add: wf2_length)
  have row: "length (data2 embeddings ! i) = d" if "i < n" for i
    using assms that by (simp add: wf2_row)
  have rows: "\<forall>v \<in> set (data2 embeddings). length v = d"
    using assms by (auto simp: wf2_def list_all_iff)
  show ?thesis
  proof (cases "embedding_size < int d")
    case True
    then have k: "nat embedding_size < d" "min (nat embedding_size) d = nat embedding_size"
      using assms(3) by auto
    have r: "adjust_matryoshka_embedding embeddings embedding_size
        = \<lparr>shape2 = (n, nat embedding_size), data2 = map (take (nat embedding_size)) (data2 embeddings)\<rparr>"
      using True assms k by (simp add: adjust_matryoshka_embedding_def slice_last_def Let_def)
    have "wf2 (adjust_matryoshka_embedding embeddings embedding_size)"
      using rows k len by (simp add: r wf2_def list_all_iff)
    moreover have "\<forall>i<n. \<forall>j<nat embedding_size.
            at2 (adjust_matryoshka_embedding embeddings embedding_size) i j
              = (if j < d then at2 embeddings i j else 0)"
      using k len by (simp add: r at2_def)
    ultimately show ?thesis using True by (simp add: r)
  next
    case False
    show ?thesis
    proof (cases "int d < embedding_size")
      case True
      then have k: "d + nat (embedding_size - int d) = nat embedding_size"
        "nat (embedding_size - int d) = nat embedding_size - d" by auto
      have r: "adjust_matryoshka_embedding embeddings embedding_size
          = \<lparr>shape2 = (n, nat embedding_size),
             data2 = map (\<lambda>v. v @ replicate (nat embedding_size - d) 0) (data2 embeddings)\<rparr>"
        using True False assms k
        by (simp add: adjust_matryoshka_embedding_def np_pad_last_def Let_def)
      have "wf2 (adjust_matryoshka_embedding embeddings embedding_size)"
        using rows k len True by (auto simp: r wf2_def list_all_iff)
      moreover have "\<forall>i<n. \<forall>j<nat embedding_size.
            at2 (adjust_matryoshka_embedding embeddings embedding_size) i j
              = (if j < d then at2 embeddings i j else 0)"
        using len row by (simp add: r at2_def nth_append)
      ultimately show ?thesis using True by (simp add: r)
    next
      case False
      then have e: "embedding_size = int d" using \<open>\<not> embedding_size < int d\<close> by simp
      have r: "adjust_matryoshka_embedding embeddings (int d) = embeddings"
        using assms(2) by (simp add: adjust_matryoshka_embedding_def)
      show ?thesis unfolding e using assms(1,2) by (simp add: r)
    qed
  qed
qed

theorem adjust_matryoshka_embedding_correct_witness:
  "wf2 demo_vectors \<and> shape2 demo_vectors = (2, 2) \<and> (0::int) \<le> 1 \<and> (0::int) \<le> 3
   \<and> adjust_matryoshka_embedding demo_vectors 1 = \<lparr>shape2 = (2, 1), data2 = [[3], [0]]\<rparr>
   \<and> adjust_matryoshka_embedding demo_vectors 3 = \<lparr>shape2 = (2, 3), data2 = [[3, 4, 0], [0, 0, 0]]\<rparr>
   \<and> shape2 (adjust_matryoshka_embedding demo_vectors 3) = (2, nat 3)
   \<and> wf2 (adjust_matryoshka_embedding demo_vectors 1)"
proof -
  have h1: "wf2 demo_vectors" by (simp add: wf2_def demo_vectors_def)
  have h2: "shape2 demo_vectors = (2, 2)" by (simp add: demo_vectors_def)
  have h3: "(0::int) \<le> 1" "(0::int) \<le> 3" by simp_all
  have v1: "adjust_matryoshka_embedding demo_vectors 1 = \<lparr>shape2 = (2, 1), data2 = [[3], [0]]\<rparr>"
    by (simp add: adjust_matryoshka_embedding_def slice_last_def demo_vectors_def)
  have v2: "adjust_matryoshka_embedding demo_vectors 3 = \<lparr>shape2 = (2, 3), data2 = [[3, 4, 0], [0, 0, 0]]\<rparr>"
    by (simp add: adjust_matryoshka_embedding_def np_pad_last_def demo_vectors_def)
  have t: "wf2 (adjust_matryoshka_embedding demo_vectors 1)
      \<and> shape2 (adjust_matryoshka_embedding demo_vectors 3) = (2, nat 3)"
    using adjust_matryoshka_embedding_correct [OF h1 h2 h3(1)]
      adjust_matryoshka_embedding_correct [OF h1 h2 h3(2)] by blast
  show ?thesis using t h1 h2 h3 v1 v2 by blast
qed

section \<open>First-token pooling\<close>

text \<open>
  Claim C9. When the inference engine returns, for every batch, a well-formed array with
  one row per document and at least one token, \<open>FlagEmbedding.embed\<close> yields, batch after
  batch and document after document, the L2-normalized hidden vector at token position 0
  of that document's row of the raw output, on the single-process path and on the pool
  path alike; for a positive batch size that is one vector per input item.
\<close>

theorem embed_first_token_pooling:
  assumes "case os_cpu_count of None \<Rightarrow> True | Some c \<Rightarrow> 0 < c"
    and "parallel = None \<or> parallel = Some 0 \<or> (\<exists>N>0. parallel = Some N)"
    and "\<forall>batch \<in> set (fst (iter_batch (resolved_items documents) batch_size)).
           wf3 (fst (onnx_embed batch))
           \<and> (\<exists>s h. 0 < s \<and> shape3 (fst (onnx_embed batch)) = (length batch, s, h))"
  shows "embed_flag os_cpu_count sched onnx_embed documents batch_size parallel
           = (concat (map (\<lambda>batch. map (\<lambda>item. l2_normalized eps_default (item ! 0))
                                     (data3 (fst (onnx_embed batch))))
                        (fst (iter_batch (resolved_items documents) batch_size))),
              snd (iter_batch (resolved_items documents) batch_size))
       \<and> (0 < batch_size \<longrightarrow>
            length (fst (embed_flag os_cpu_count sched onnx_embed documents batch_size parallel))
              = length (resolved_items documents))"
proof -
  let ?batches = "fst (iter_batch (resolved_items documents) batch_size)"
  let ?fin = "snd (iter_batch (resolved_items documents) batch_size)"
  let ?g = "\<lambda>batch. map (\<lambda>item. l2_normalized eps_default (item ! 0)) (data3 (fst (onnx_embed batch)))"
  have body: "(case onnx_embed batch of (embeddings, _) \<Rightarrow> first_token_normalize embeddings) = Inr (?g batch)"
    if "batch \<in> set ?batches" for batch
  proof -
    have "wf3 (fst (onnx_embed batch))
        \<and> (\<exists>s h. 0 < s \<and> shape3 (fst (onnx_embed batch)) = (length batch, s, h))"
      using assms(3) that by (rule bspec)
    then obtain s h where w: "wf3 (fst (onnx_embed batch))"
      and sh: "shape3 (fst (onnx_embed batch)) = (length batch, s, h)" and pos: "0 < s"
      by auto
    have "first_token_normalize (fst (onnx_embed batch)) = Inr (?g batch)"
      using w sh pos by (rule first_token_rows)
    then show ?thesis by (simp only: case_prod_beta)
  qed
  have e: "embed_flag os_cpu_count sched onnx_embed documents batch_size parallel
      = (concat (map ?g ?batches), ?fin)"
  proof -
    have "embed_flag os_cpu_count sched onnx_embed documents batch_size parallel
        = yield_each (\<lambda>batch. case onnx_embed batch of (embeddings, _) \<Rightarrow> first_token_normalize embeddings)
            ?batches ?fin"
      using assms(1) assms(2) by (rule embed_any_route)
    also have "\<dots> = (concat (map ?g ?batches), ?fin)"
      using body by (rule yield_each_Inr)
    finally show ?thesis .
  qed
  have len: "length (concat (map ?g ?batches)) = length (resolved_items documents)" if "0 < batch_size"
  proof -
    have "length (?g batch) = length batch" if "batch \<in> set ?batches" for batch
    proof -
      have "wf3 (fst (onnx_embed batch))
          \<and> (\<exists>s h. 0 < s \<and> shape3 (fst (onnx_embed batch)) = (length batch, s, h))"
        using assms(3) that by (rule bspec)
      then obtain s h where w: "wf3 (fst (onnx_embed batch))"
        and sh: "shape3 (fst (onnx_embed batch)) = (length batch, s, h)"
        by auto
      have "length (data3 (fst (onnx_embed batch))) = length batch"
        using w sh by (rule wf3_length)
      then show ?thesis by simp
    qed
    then have "length (concat (map ?g ?batches)) = length (concat ?batches)"
      by (rule length_concat_map)
    also have "concat ?batches = resolved_items documents"
      using that by (simp add: iter_batch_def iter_batch_loop_concat)
    finally show ?thesis .
  qed
  show ?thesis using e len by simp
qed

theorem embed_first_token_pooling_witness:
  "(case (None :: int option) of None \<Rightarrow> True | Some c \<Rightarrow> 0 < c)
   \<and> ((None :: int option) = None \<or> (None :: int option) = Some 0 \<or> (\<exists>N>0. (None :: int option) = Some N))
   \<and> fst (iter_batch (resolved_items (DocList [''a'', ''b''])) 1) = [[''a''], [''b'']]
   \<and> wf3 (fst (demo_onnx_embed [''a'']))
   \<and> shape3 (fst (demo_onnx_embed [''a''])) = (length [''a''], 1, 2)
   \<and> embed_flag None demo_schedule demo_onnx_embed (DocList [''a'', ''b'']) 1 None
       = ([[3 / 5, 4 / 5], [3 / 5, 4 / 5]], None)"
proof -
  have h1: "case (None :: int option) of None \<Rightarrow> True | Some c \<Rightarrow> 0 < c" by simp
  have h2: "(None :: int option) = None \<or> (None :: int option) = Some 0 \<or> (\<exists>N>0. (None :: int option) = Some N)"
    by simp
  have h3: "\<forall>batch \<in> set (fst (iter_batch (resolved_items (DocList [''a'', ''b''])) 1)).
           wf3 (fst (demo_onnx_embed batch))
           \<and> (\<exists>s h. 0 < s \<and> shape3 (fst (demo_onnx_embed batch)) = (length batch, s, h))"
    by (rule ballI) (rule demo_onnx_embed_wf)
  have b: "iter_batch [''a'', ''b''] 1 = ([[''a''], [''b'']], None)"
    by (simp add: iter_batch_def iter_batch_loop_unfold)
  have n: "l2_normalized eps_default [3, 4] = [3 / 5, 4 / 5]"
    by (simp add: l2_normalized_def l2_norm_3_4 eps_default_def)
  have e: "embed_flag None demo_schedule demo_onnx_embed (DocList [''a'', ''b'']) 1 None
       = (concat (map (\<lambda>batch. map (\<lambda>item. l2_normalized eps_default (item ! 0))
                                     (data3 (fst (demo_onnx_embed batch))))
                        (fst (iter_batch (resolved_items (DocList [''a'', ''b''])) 1))),
              snd (iter_batch (resolved_items (DocList [''a'', ''b''])) 1))"
    using embed_first_token_pooling [OF h1 h2 h3, of demo_schedule] by (rule conjunct1)
  have r: "(concat (map (\<lambda>batch. map (\<lambda>item. l2_normalized eps_default (item ! 0))
                                     (data3 (fst (demo_onnx_embed batch))))
                        (fst (iter_batch (resolved_items (DocList [''a'', ''b''])) 1))),
              snd (iter_batch (resolved_items (DocList [''a'', ''b''])) 1))
       = ([[3 / 5, 4 / 5], [3 / 5, 4 / 5]], None)"
    by (simp add: b n demo_onnx_embed_def)
  have v: "embed_flag None demo_schedule demo_onnx_embed (DocList [''a'', ''b'']) 1 None
       = ([[3 / 5, 4 / 5], [3 / 5, 4 / 5]], None)"
    using e r by (rule trans)
  have b1: "fst (iter_batch (resolved_items (DocList [''a'', ''b''])) 1) = [[''a''], [''b'']]"
    by (simp add: b)
  have w1: "wf3 (fst (demo_onnx_embed [''a'']))"
    using demo_onnx_embed_wf [of "[''a'']"] by (rule conjunct1)
  have s1: "shape3 (fst (demo_onnx_embed [''a''])) = (length [''a''], 1, 2)"
    by (simp add: demo_onnx_embed_def)
  show ?thesis by (intro conjI) (rule h1, rule h2, rule b1, rule w1, rule s1, rule v)
qed

section \<open>Query embedding of a string\<close>

lemma query_embed_abstract:
  "query_embed abstract_embed query = ([], Some NotImplementedError)"
  by (cases query) (simp_all add: query_embed_def yield_from_def abstract_embed_def)

lemma query_embed_iterable:
  "query_embed self_embed (DocList qs) = self_embed (DocList qs)"
  "query_embed self_embed (DocIter qs) = self_embed (DocIter qs)"
  by (simp_all add: query_embed_def yield_from_def split: prod.splits option.splits)




end
